theory Spec2Isabelle
  imports Main "HOL-Library.Monad_Syntax"
begin

section \<open>Strings of the markdown widget\<close>

text \<open>
  The widget (\<^verbatim>\<open>src/rev/0.7.3dev/dev/markdown_widget.py\<close>, class \<^verbatim>\<open>MarkdownText\<close>)
  works on Python \<^verbatim>\<open>str\<close> values: sequences of Unicode code points, whose \<^verbatim>\<open>len\<close>
  counts code points.  A character is therefore modelled by its code point, a string by
  the list of its code points.  ASCII text is written \<open>str ''...''\<close>.
\<close>

type_synonym uchar = nat
type_synonym ustring = "uchar list"

abbreviation str :: "string \<Rightarrow> ustring" where
  "str s \<equiv> map of_char s"

text \<open>The two non-ASCII glyphs of the source: the bullet of list items and the rule character.\<close>

definition bullet :: uchar where
  "bullet = 8226"

definition rule_glyph :: uchar where
  "rule_glyph = 9472"

text \<open>
  Python's notion of white space, shared by \<^verbatim>\<open>str.strip()\<close> and by \<^verbatim>\<open>\s\<close> in a
  \<^verbatim>\<open>str\<close> pattern of \<^verbatim>\<open>re\<close>.
\<close>

definition is_space :: "uchar \<Rightarrow> bool" where
  "is_space c = (c \<in> set [9, 10, 11, 12, 13, 28, 29, 30, 31, 32, 133, 160, 5760,
      8192, 8193, 8194, 8195, 8196, 8197, 8198, 8199, 8200, 8201, 8202,
      8232, 8233, 8239, 8287, 12288])"

text \<open>
  \<^verbatim>\<open>\d\<close> in a \<^verbatim>\<open>str\<close> pattern: the decimal digits of Unicode (general category Nd),
  given by the code-point ranges of the Unicode 14 tables used by CPython 3.11.
\<close>

definition digit_ranges :: "(nat \<times> nat) list" where
  "digit_ranges = [(48, 57), (1632, 1641), (1776, 1785), (1984, 1993), (2406, 2415),
     (2534, 2543), (2662, 2671), (2790, 2799), (2918, 2927), (3046, 3055), (3174, 3183),
     (3302, 3311), (3430, 3439), (3558, 3567), (3664, 3673), (3792, 3801), (3872, 3881),
     (4160, 4169), (4240, 4249), (6112, 6121), (6160, 6169), (6470, 6479), (6608, 6617),
     (6784, 6793), (6800, 6809), (6992, 7001), (7088, 7097), (7232, 7241), (7248, 7257),
     (42528, 42537), (43216, 43225), (43264, 43273), (43472, 43481), (43504, 43513),
     (43600, 43609), (44016, 44025), (65296, 65305), (66720, 66729), (68912, 68921),
     (69734, 69743), (69872, 69881), (69942, 69951), (70096, 70105), (70384, 70393),
     (70736, 70745), (70864, 70873), (71248, 71257), (71360, 71369), (71472, 71481),
     (71904, 71913), (72016, 72025), (72784, 72793), (73040, 73049), (73120, 73129),
     (92768, 92777), (92864, 92873), (93008, 93017), (120782, 120831), (123200, 123209),
     (123632, 123641), (125264, 125273), (130032, 130041)]"

definition is_digit :: "uchar \<Rightarrow> bool" where
  "is_digit c = list_ex (\<lambda>(lo, hi). lo \<le> c \<and> c \<le> hi) digit_ranges"

text \<open>\<^verbatim>\<open>s.startswith(p)\<close>.\<close>

definition startswith :: "ustring \<Rightarrow> ustring \<Rightarrow> bool" where
  "startswith s p = (take (length p) s = p)"

text \<open>\<^verbatim>\<open>s.lstrip(chars)\<close> and \<^verbatim>\<open>s.strip(chars)\<close>, the character set given as a predicate.\<close>

definition lstrip_chars :: "(uchar \<Rightarrow> bool) \<Rightarrow> ustring \<Rightarrow> ustring" where
  "lstrip_chars p s = dropWhile p s"

definition strip_chars :: "(uchar \<Rightarrow> bool) \<Rightarrow> ustring \<Rightarrow> ustring" where
  "strip_chars p s = rev (dropWhile p (rev (dropWhile p s)))"

text \<open>\<^verbatim>\<open>s.strip()\<close>.\<close>

definition strip :: "ustring \<Rightarrow> ustring" where
  "strip s = strip_chars is_space s"

text \<open>\<^verbatim>\<open>s.split(sep)\<close> for a one-character separator: never the empty list.\<close>

fun split_str :: "uchar \<Rightarrow> ustring \<Rightarrow> ustring list" where
  "split_str sep [] = [[]]"
| "split_str sep (c # cs) =
     (if c = sep then [] # split_str sep cs
      else (case split_str sep cs of
              [] \<Rightarrow> [[c]]
            | l # ls \<Rightarrow> (c # l) # ls))"

text \<open>\<^verbatim>\<open>sep.join(xs)\<close>.\<close>

fun join_str :: "ustring \<Rightarrow> ustring list \<Rightarrow> ustring" where
  "join_str sep [] = []"
| "join_str sep [x] = x"
| "join_str sep (x # y # ys) = x @ sep @ join_str sep (y # ys)"

section \<open>The regular expressions of the inline formatter\<close>

text \<open>
  A match object of \<^verbatim>\<open>re\<close>: \<^verbatim>\<open>match.span()\<close> and \<^verbatim>\<open>match.group(1)\<close>.
\<close>

record re_match =
  match_start :: nat
  match_end :: nat
  group1 :: ustring

text \<open>
  \<^verbatim>\<open>re.finditer(pattern, text)\<close> scans the text from left to right; at each position it
  tries the pattern, and after a match it resumes at the end of that match.  A pattern is
  given by its matcher at a position: on the rest of the text from there it returns the
  length of the match and group 1.  \<open>scan\<close> walks the text; \<open>skip\<close> counts the
  characters of the last match that are still to be passed over.
\<close>

type_synonym matcher = "ustring \<Rightarrow> (nat \<times> ustring) option"

fun scan :: "matcher \<Rightarrow> nat \<Rightarrow> nat \<Rightarrow> ustring \<Rightarrow> re_match list" where
  "scan m pos skip [] = []"
| "scan m pos skip (c # cs) =
     (if 0 < skip then scan m (pos + 1) (skip - 1) cs
      else (case m (c # cs) of
              None \<Rightarrow> scan m (pos + 1) 0 cs
            | Some (n, g) \<Rightarrow>
                \<lparr>match_start = pos, match_end = pos + n, group1 = g\<rparr>
                  # scan m (pos + 1) (n - 1) cs))"

definition finditer :: "matcher \<Rightarrow> ustring \<Rightarrow> re_match list" where
  "finditer m text = scan m 0 0 text"

text \<open>
  The five delimiter patterns have one shape, \<^verbatim>\<open>D([^c]+)D\<close> or \<^verbatim>\<open>D([^c]+?)D\<close> with
  \<open>c\<close> the character the delimiter \<open>D\<close> is made of.  Group 1 cannot contain \<open>c\<close> and
  must be followed by \<open>c\<close>, so greedy or lazy it is the whole run of characters other
  than \<open>c\<close> after the opening delimiter; the run must be non-empty and the closing
  delimiter must follow it.
\<close>

definition match_delim :: "ustring \<Rightarrow> uchar \<Rightarrow> matcher" where
  "match_delim d c xs =
     (if startswith xs d then
        (let rest = drop (length d) xs;
             content = takeWhile (\<lambda>x. x \<noteq> c) rest
         in if content \<noteq> [] \<and> startswith (drop (length content) rest) d
            then Some (2 * length d + length content, content)
            else None)
      else None)"

text \<open>\<^verbatim>\<open>code_pattern = r'`([^`]+)`'\<close>\<close>

definition code_pattern :: matcher where
  "code_pattern = match_delim (str ''`'') (of_char CHR ''`'')"

text \<open>\<^verbatim>\<open>strikethrough_pattern = r'~~([^~]+?)~~'\<close>\<close>

definition strikethrough_pattern :: matcher where
  "strikethrough_pattern = match_delim (str ''~~'') (of_char CHR ''~'')"

text \<open>\<^verbatim>\<open>bold_italic_pattern = r'\*\*\*([^*]+?)\*\*\*'\<close>\<close>

definition bold_italic_pattern :: matcher where
  "bold_italic_pattern = match_delim (str ''***'') (of_char CHR ''*'')"

text \<open>\<^verbatim>\<open>bold_pattern = r'\*\*([^*]+?)\*\*'\<close>\<close>

definition bold_pattern :: matcher where
  "bold_pattern = match_delim (str ''**'') (of_char CHR ''*'')"

text \<open>\<^verbatim>\<open>italic_pattern = r'\*([^*]+?)\*'\<close>\<close>

definition italic_pattern :: matcher where
  "italic_pattern = match_delim (str ''*'') (of_char CHR ''*'')"

text \<open>
  \<^verbatim>\<open>link_pattern = r'\[([^\]]+?)\]\([^\)]+?\)'\<close>: the label is the non-empty run up to the
  first \<^verbatim>\<open>]\<close>, which \<^verbatim>\<open>(\<close> must follow; the URL is the non-empty run up to the first
  \<^verbatim>\<open>)\<close>.
\<close>

definition link_pattern :: matcher where
  "link_pattern xs =
     (if startswith xs (str ''['') then
        (let rest = drop 1 xs;
             label = takeWhile (\<lambda>x. x \<noteq> of_char CHR '']'') rest;
             rest2 = drop (length label) rest
         in if label \<noteq> [] \<and> startswith rest2 (str '']('') then
              (let rest3 = drop 2 rest2;
                   url = takeWhile (\<lambda>x. x \<noteq> of_char CHR '')'') rest3
               in if url \<noteq> [] \<and> startswith (drop (length url) rest3) (str '')'')
                  then Some (length label + length url + 4, label)
                  else None)
            else None)
      else None)"

section \<open>The inline formatter\<close>

text \<open>
  The \<^verbatim>\<open>'type'\<close> of a format entry is the name of the tag applied to its range, and a
  format entry is the dictionary \<^verbatim>\<open>{'start': ..., 'end': ..., 'type': ...}\<close>.  Python's
  integers are unbounded and \<^verbatim>\<open>start - offset\<close> may be negative, so positions are
  \<open>int\<close>.
\<close>

datatype format_type = Inline_code | Strikethrough | Bold_italic | Bold | Italic | Link

record format =
  fmt_start :: int
  fmt_end :: int
  fmt_type :: format_type

text \<open>The local variables of \<^verbatim>\<open>_process_inline_formatting\<close> that the passes update.\<close>

record inline_state =
  processed_text :: ustring
  formats :: "format list"
  offset :: nat

text \<open>
  \<^verbatim>\<open>_position_in_ranges(start, end, ranges, offset)\<close>: the loop returns True at the
  first range that the shifted interval overlaps, and False after the last.
\<close>

fun position_in_ranges :: "nat \<Rightarrow> nat \<Rightarrow> (nat \<times> nat) list \<Rightarrow> nat \<Rightarrow> bool" where
  "position_in_ranges start end_pos [] off = False"
| "position_in_ranges start end_pos ((range_start, range_end) # ranges) off =
     (let adjusted_start = start + off;
          adjusted_end = end_pos + off
      in if adjusted_start < range_end \<and> adjusted_end > range_start then True
         else position_in_ranges start end_pos ranges off)"

text \<open>
  \<^verbatim>\<open>processed_text[:start] + content + processed_text[end:]\<close>; the indices are never
  negative, so the slices are \<open>take\<close> and \<open>drop\<close>.
\<close>

definition replace_span :: "ustring \<Rightarrow> nat \<Rightarrow> nat \<Rightarrow> ustring \<Rightarrow> ustring" where
  "replace_span text start end_pos content = take start text @ content @ drop end_pos text"

text \<open>
  The body of the first loop (inline code): every match is accepted, the entry is
  recorded at \<^verbatim>\<open>start - offset\<close>, and the offset grows by two.
\<close>

definition code_step :: "re_match \<Rightarrow> inline_state \<Rightarrow> inline_state" where
  "code_step m st =
     (let start = match_start m; end_pos = match_end m; content = group1 m
      in \<lparr>processed_text = replace_span (processed_text st) start end_pos content,
          formats = formats st @
            [\<lparr>fmt_start = int start - int (offset st),
              fmt_end = int start - int (offset st) + int (length content),
              fmt_type = Inline_code\<rparr>],
          offset = offset st + 2\<rparr>)"

text \<open>
  The body of the loops 2 to 5 (strikethrough, bold-italic, bold, italic), which differ
  in the tag and in the number \<open>k\<close> added to the offset: a match is accepted when
  \<^verbatim>\<open>_position_in_ranges(start, end, code_ranges, offset)\<close> is False, and skipped
  otherwise.
\<close>

definition delim_step ::
    "format_type \<Rightarrow> nat \<Rightarrow> (nat \<times> nat) list \<Rightarrow> re_match \<Rightarrow> inline_state \<Rightarrow> inline_state" where
  "delim_step ty k code_ranges m st =
     (let start = match_start m; end_pos = match_end m
      in if \<not> position_in_ranges start end_pos code_ranges (offset st) then
           (let content = group1 m
            in \<lparr>processed_text = replace_span (processed_text st) start end_pos content,
                formats = formats st @
                  [\<lparr>fmt_start = int start,
                    fmt_end = int start + int (length content),
                    fmt_type = ty\<rparr>],
                offset = offset st + k\<rparr>)
         else st)"

text \<open>
  The body of the sixth loop (links): the offset grows by
  \<^verbatim>\<open>len(match.group(0)) - len(content)\<close>.
\<close>

definition link_step :: "(nat \<times> nat) list \<Rightarrow> re_match \<Rightarrow> inline_state \<Rightarrow> inline_state" where
  "link_step code_ranges m st =
     (let start = match_start m; end_pos = match_end m
      in if \<not> position_in_ranges start end_pos code_ranges (offset st) then
           (let content = group1 m
            in \<lparr>processed_text = replace_span (processed_text st) start end_pos content,
                formats = formats st @
                  [\<lparr>fmt_start = int start,
                    fmt_end = int start + int (length content),
                    fmt_type = Link\<rparr>],
                offset = offset st + ((end_pos - start) - length content)\<rparr>)
         else st)"

text \<open>
  \<^verbatim>\<open>for match in reversed(matches): body\<close>: the matches are found before the loop
  starts, and the body runs on them from the last to the first.
\<close>

definition for_reversed ::
    "(re_match \<Rightarrow> inline_state \<Rightarrow> inline_state) \<Rightarrow> re_match list \<Rightarrow> inline_state \<Rightarrow> inline_state" where
  "for_reversed body matches st = fold body (rev matches) st"

text \<open>
  The six passes of \<^verbatim>\<open>_process_inline_formatting\<close>, with the state they leave.  The
  code matches are searched in \<^verbatim>\<open>text\<close>, the matches of each later pass in the
  \<^verbatim>\<open>processed_text\<close> of that moment.
\<close>

definition inline_passes :: "ustring \<Rightarrow> inline_state" where
  "inline_passes text =
     (let st0 = \<lparr>processed_text = text, formats = [], offset = 0\<rparr>;
          code_matches = finditer code_pattern text;
          code_ranges = map (\<lambda>m. (match_start m, match_end m)) code_matches;
          st1 = for_reversed code_step code_matches st0;
          st2 = for_reversed (delim_step Strikethrough 4 code_ranges)
                  (finditer strikethrough_pattern (processed_text st1)) st1;
          st3 = for_reversed (delim_step Bold_italic 6 code_ranges)
                  (finditer bold_italic_pattern (processed_text st2)) st2;
          st4 = for_reversed (delim_step Bold 4 code_ranges)
                  (finditer bold_pattern (processed_text st3)) st3;
          st5 = for_reversed (delim_step Italic 2 code_ranges)
                  (finditer italic_pattern (processed_text st4)) st4;
          st6 = for_reversed (link_step code_ranges)
                  (finditer link_pattern (processed_text st5)) st5
      in st6)"

text \<open>
  \<^verbatim>\<open>_process_inline_formatting(text)\<close> returns the dictionary
  \<^verbatim>\<open>{'text': processed_text, 'formats': formats}\<close>.
\<close>

definition process_inline_formatting :: "ustring \<Rightarrow> ustring \<times> format list" where
  "process_inline_formatting text =
     (let st = inline_passes text in (processed_text st, formats st))"

section \<open>The block renderer\<close>

text \<open>
  What the renderer writes into the Tk text widget.  Every branch of the loop of
  \<^verbatim>\<open>_render_markdown_text\<close> calls \<^verbatim>\<open>self.insert(current_pos, display_text)\<close> once, at
  the end of what it has written so far, and then either \<^verbatim>\<open>self.tag_add(tag, ...)\<close> over
  the whole inserted text or \<^verbatim>\<open>self._apply_format_tags(line_start, formats)\<close>, which adds
  one tag per format entry at \<^verbatim>\<open>line_start + start\<close> to \<^verbatim>\<open>line_start + end\<close>.  The content
  of the widget is the sequence of these insertions.  The tag \<^verbatim>\<open>f"h{hash_count}"\<close> is
  \<open>H hash_count\<close>.
\<close>

datatype tag = Code_block | H nat | Blockquote | List_item | Normal

datatype insertion =
    Tagged ustring tag
  | Formatted ustring "format list"

fun inserted_text :: "insertion \<Rightarrow> ustring" where
  "inserted_text (Tagged display_text t) = display_text"
| "inserted_text (Formatted display_text fs) = display_text"

text \<open>The text the widget shows: the inserted texts, one after the other.\<close>

definition shown_text :: "insertion list \<Rightarrow> ustring" where
  "shown_text display = concat (map inserted_text display)"

text \<open>
  A value \<open>None\<close> of the functions below stands for a call that does not return: an
  exception or a loop that runs forever.  \<^verbatim>\<open>lines[i]\<close> raises IndexError out of range.
\<close>

definition index :: "'a list \<Rightarrow> nat \<Rightarrow> 'a option" where
  "index xs i = (if i < length xs then Some (xs ! i) else None)"

definition newline :: ustring where
  "newline = [10]"

text \<open>\<^verbatim>\<open>line.strip().startswith('```')\<close>\<close>

definition is_fence :: "ustring \<Rightarrow> bool" where
  "is_fence line = startswith (strip line) (str ''```'')"

text \<open>
  \<^verbatim>\<open>while i < len(lines) and not lines[i].strip().startswith('```'):\<close>
  \<^verbatim>\<open>    code_lines.append(lines[i]); i += 1\<close>
\<close>

partial_function (option) fence_loop ::
    "ustring list \<Rightarrow> nat \<Rightarrow> ustring list \<Rightarrow> (nat \<times> ustring list) option" where
  "fence_loop lines i code_lines =
     (if i < length lines then
        do {
          line \<leftarrow> index lines i;
          if \<not> is_fence line then
            do {
              appended \<leftarrow> index lines i;
              fence_loop lines (i + 1) (code_lines @ [appended])
            }
          else Some (i, code_lines)
        }
      else Some (i, code_lines))"

declare fence_loop.simps [code]

text \<open>\<^verbatim>\<open>line.strip().startswith('>')\<close>\<close>

definition is_quote :: "ustring \<Rightarrow> bool" where
  "is_quote line = startswith (strip line) (str ''>'')"

text \<open>
  \<^verbatim>\<open>while i < len(lines) and lines[i].strip().startswith('>'):\<close>
  \<^verbatim>\<open>    quote_text = lines[i].strip().lstrip('>').strip()\<close>
  \<^verbatim>\<open>    quote_lines.append(quote_text); i += 1\<close>
\<close>

partial_function (option) quote_loop ::
    "ustring list \<Rightarrow> nat \<Rightarrow> ustring list \<Rightarrow> (nat \<times> ustring list) option" where
  "quote_loop lines i quote_lines =
     (if i < length lines then
        do {
          line \<leftarrow> index lines i;
          if is_quote line then
            do {
              quoted \<leftarrow> index lines i;
              quote_loop lines (i + 1)
                (quote_lines @ [strip (lstrip_chars (\<lambda>c. c = of_char CHR ''>'') (strip quoted))])
            }
          else Some (i, quote_lines)
        }
      else Some (i, quote_lines))"

declare quote_loop.simps [code]

text \<open>
  The heading branch.  \<^verbatim>\<open>hash_count\<close> counts the \<^verbatim>\<open>#\<close> at the start of \<^verbatim>\<open>line\<close> (the
  \<^verbatim>\<open>for\<close> loop breaks at the first other character), and
  \<^verbatim>\<open>title_text = line.strip('#').strip()\<close>.
\<close>

definition hash_count :: "ustring \<Rightarrow> nat" where
  "hash_count line = length (takeWhile (\<lambda>c. c = of_char CHR ''#'') line)"

definition title_text :: "ustring \<Rightarrow> ustring" where
  "title_text line = strip (strip_chars (\<lambda>c. c = of_char CHR ''#'') line)"

text \<open>
  The three nested conditions under which the heading branch inserts and continues;
  otherwise control falls through to the branches after it.
\<close>

definition is_heading :: "ustring \<Rightarrow> bool" where
  "is_heading line =
     (startswith (strip line) (str ''#'') \<and> hash_count line \<le> 4 \<and> title_text line \<noteq> [])"

text \<open>
  \<^verbatim>\<open>re.match(r'^\s*[-*+]\s+', line)\<close>: the white space at the start, one of the three
  markers, and at least one white-space character.  The result is the indentation (group
  1) and the end of the match, or \<open>None\<close>.
\<close>

definition unordered_match :: "ustring \<Rightarrow> (ustring \<times> nat) option" where
  "unordered_match line =
     (let indent = takeWhile is_space line;
          rest = dropWhile is_space line
      in case rest of
           [] \<Rightarrow> None
         | c # after \<Rightarrow>
             if c \<in> set (str ''-*+'') \<and> takeWhile is_space after \<noteq> []
             then Some (indent, length indent + 1 + length (takeWhile is_space after))
             else None)"

text \<open>
  \<^verbatim>\<open>re.match(r'^\s*\d+\.\s+', line)\<close>: the white space at the start, the digits, a dot, and
  at least one white-space character.
\<close>

definition ordered_match :: "ustring \<Rightarrow> (ustring \<times> nat) option" where
  "ordered_match line =
     (let indent = takeWhile is_space line;
          rest = dropWhile is_space line;
          digits = takeWhile is_digit rest;
          after = drop (length digits) rest
      in if digits \<noteq> [] \<and> startswith after (str ''.'') \<and> takeWhile is_space (drop 1 after) \<noteq> []
         then Some (indent,
                length indent + length digits + 1 + length (takeWhile is_space (drop 1 after)))
         else None)"

text \<open>
  \<^verbatim>\<open>re.sub(r'^(\s*)[-*+]\s+', r'\1\<bullet> ', line)\<close> and
  \<^verbatim>\<open>re.sub(r'^(\s*)\d+\.\s+', r'\1\g<0>', clean_line)\<close>: the pattern is anchored at the start
  of the string, so at most one match is replaced; the replacement is group 1 followed by
  the bullet and a space, respectively group 1 followed by the whole match.
\<close>

definition sub_unordered :: "ustring \<Rightarrow> ustring" where
  "sub_unordered line =
     (case unordered_match line of
        None \<Rightarrow> line
      | Some (indent, e) \<Rightarrow> (indent @ [bullet, of_char CHR '' '']) @ drop e line)"

definition sub_ordered :: "ustring \<Rightarrow> ustring" where
  "sub_ordered line =
     (case ordered_match line of
        None \<Rightarrow> line
      | Some (indent, e) \<Rightarrow> (indent @ take e line) @ drop e line)"

definition is_list_item :: "ustring \<Rightarrow> bool" where
  "is_list_item line = (unordered_match line \<noteq> None \<or> ordered_match line \<noteq> None)"

text \<open>
  \<^verbatim>\<open>re.match(r'^\s*[-*_]{3,}\s*$', line)\<close>: white space, a run of at least three of the
  rule characters, and nothing but white space after the run.
\<close>

definition is_rule :: "ustring \<Rightarrow> bool" where
  "is_rule line =
     (let rest = dropWhile is_space line;
          run = takeWhile (\<lambda>c. c \<in> set (str ''-*_'')) rest
      in 3 \<le> length run \<and> list_all is_space (drop (length run) rest))"

text \<open>
  One round of the \<^verbatim>\<open>while i < len(lines)\<close> loop of \<^verbatim>\<open>_render_markdown_text\<close>: the
  value of \<^verbatim>\<open>i\<close> at the end of the round and what the round has inserted.
\<close>

definition render_line :: "ustring list \<Rightarrow> nat \<Rightarrow> (nat \<times> insertion list) option" where
  "render_line lines i =
     do {
       line \<leftarrow> index lines i;
       if is_fence line then
         do {
           (j, code_lines) \<leftarrow> fence_loop lines (i + 1) [];
           Some (j + 1,
             if code_lines \<noteq> []
             then [Tagged (join_str newline code_lines @ newline) Code_block]
             else [])
         }
       else if is_heading line then
         Some (i + 1, [Tagged (title_text line @ newline) (H (hash_count line))])
       else if is_quote line then
         do {
           (j, quote_lines) \<leftarrow> quote_loop lines i [];
           Some (j,
             if quote_lines \<noteq> []
             then [Tagged (join_str newline quote_lines @ newline) Blockquote]
             else [])
         }
       else if is_list_item line then
         Some (i + 1, [Tagged (sub_ordered (sub_unordered line) @ newline) List_item])
       else if is_rule line then
         Some (i + 1, [Tagged (replicate 50 rule_glyph @ newline) Normal])
       else
         (let processed_line = process_inline_formatting line
          in Some (i + 1, [Formatted (fst processed_line @ newline) (snd processed_line)]))
     }"

partial_function (option) render_loop ::
    "ustring list \<Rightarrow> nat \<Rightarrow> insertion list \<Rightarrow> insertion list option" where
  "render_loop lines i display =
     (if i < length lines then
        do {
          (j, inserted) \<leftarrow> render_line lines i;
          render_loop lines j (display @ inserted)
        }
      else Some display)"

declare render_loop.simps [code]

text \<open>
  \<^verbatim>\<open>_render_markdown_text(text)\<close>, called on the emptied widget: nothing for the empty
  text, else the loop over \<^verbatim>\<open>text.split('\n')\<close>.
\<close>

definition render_markdown_text :: "ustring \<Rightarrow> insertion list option" where
  "render_markdown_text text =
     (if text = [] then Some [] else render_loop (split_str 10 text) 0 [])"

section \<open>The widget\<close>

record widget =
  raw_content :: ustring
  markdown_enabled :: bool
  display :: "insertion list"


text \<open>
  \<^verbatim>\<open>render_as_plain_text\<close>: \<^verbatim>\<open>self.delete(1.0, tk.END)\<close>,
  \<^verbatim>\<open>self.insert(1.0, self.raw_content)\<close>, \<^verbatim>\<open>self.tag_add("normal", 1.0, tk.END)\<close>.
\<close>

definition render_as_plain_text :: "widget \<Rightarrow> widget" where
  "render_as_plain_text w = w\<lparr>display := [Tagged (raw_content w) Normal]\<rparr>"

section \<open>Overlap of format entries\<close>

text \<open>
  Two format entries overlap, in the words of the specification, when
  \<^verbatim>\<open>a.start < b.end and b.start < a.end\<close>.
\<close>

definition overlap :: "format \<Rightarrow> format \<Rightarrow> bool" where
  "overlap a b = (fmt_start a < fmt_end b \<and> fmt_start b < fmt_end a)"

section \<open>Matches in order\<close>

text \<open>
  What the passes rely on in the result of \<^verbatim>\<open>re.finditer\<close> on a text of length \<open>n\<close>: the
  matches come from left to right, each starts at \<open>lo\<close> or later, where the one before it
  ended, its group 1 is not longer than the match, and the last ends within the text.
\<close>

fun well_placed :: "nat \<Rightarrow> nat \<Rightarrow> re_match list \<Rightarrow> bool" where
  "well_placed lo n [] = (lo \<le> n)"
| "well_placed lo n (m # ms) =
     (lo \<le> match_start m \<and> match_start m + length (group1 m) \<le> match_end m
      \<and> well_placed (match_end m) n ms)"

section \<open>The loops return\<close>

text \<open>One round of each loop, and its last round.\<close>

lemma fence_loop_continue:
  "i < length lines \<Longrightarrow> \<not> is_fence (lines ! i) \<Longrightarrow>
   fence_loop lines i cl = fence_loop lines (i + 1) (cl @ [lines ! i])"
  by (subst fence_loop.simps) (simp add: index_def)

lemma fence_loop_stop:
  "i < length lines \<Longrightarrow> is_fence (lines ! i) \<Longrightarrow> fence_loop lines i cl = Some (i, cl)"
  by (subst fence_loop.simps) (simp add: index_def)

lemma fence_loop_end:
  "\<not> i < length lines \<Longrightarrow> fence_loop lines i cl = Some (i, cl)"
  by (subst fence_loop.simps) simp

lemma quote_loop_continue:
  "i < length lines \<Longrightarrow> is_quote (lines ! i) \<Longrightarrow>
   quote_loop lines i ql =
     quote_loop lines (i + 1)
       (ql @ [strip (lstrip_chars (\<lambda>c. c = of_char CHR ''>'') (strip (lines ! i)))])"
  by (subst quote_loop.simps) (simp add: index_def)

lemma quote_loop_stop:
  "i < length lines \<Longrightarrow> \<not> is_quote (lines ! i) \<Longrightarrow> quote_loop lines i ql = Some (i, ql)"
  by (subst quote_loop.simps) (simp add: index_def)

lemma quote_loop_end:
  "\<not> i < length lines \<Longrightarrow> quote_loop lines i ql = Some (i, ql)"
  by (subst quote_loop.simps) simp

lemma render_loop_continue:
  "i < length lines \<Longrightarrow>
   render_loop lines i d =
     (case render_line lines i of
        None \<Rightarrow> None
      | Some (j, inserted) \<Rightarrow> render_loop lines j (d @ inserted))"
  by (subst render_loop.simps) (simp split: option.splits prod.splits)

lemma render_loop_end:
  "\<not> i < length lines \<Longrightarrow> render_loop lines i d = Some d"
  by (subst render_loop.simps) simp

lemma fence_loop_returns:
  "\<exists>j cl'. fence_loop lines i cl = Some (j, cl') \<and> i \<le> j"
proof (induction "length lines - i" arbitrary: i cl)
  case 0
  then show ?case by (simp add: fence_loop_end)
next
  case (Suc n)
  then have i: "i < length lines" by simp
  show ?case
  proof (cases "is_fence (lines ! i)")
    case True
    with i show ?thesis by (simp add: fence_loop_stop)
  next
    case False
    from Suc have "n = length lines - (i + 1)" by simp
    from Suc.hyps(1) [OF this, of "cl @ [lines ! i]"]
    obtain j cl' where "fence_loop lines (i + 1) (cl @ [lines ! i]) = Some (j, cl')" "i + 1 \<le> j"
      by blast
    with i False show ?thesis by (simp add: fence_loop_continue)
  qed
qed

lemma quote_loop_returns:
  "\<exists>j ql'. quote_loop lines i ql = Some (j, ql') \<and> i \<le> j
     \<and> (i < length lines \<and> is_quote (lines ! i) \<longrightarrow> i < j)"
proof (induction "length lines - i" arbitrary: i ql)
  case 0
  then show ?case by (simp add: quote_loop_end)
next
  case (Suc n)
  then have i: "i < length lines" by simp
  show ?case
  proof (cases "is_quote (lines ! i)")
    case False
    with i show ?thesis by (simp add: quote_loop_stop)
  next
    case True
    let ?ql = "ql @ [strip (lstrip_chars (\<lambda>c. c = of_char CHR ''>'') (strip (lines ! i)))]"
    from Suc have "n = length lines - (i + 1)" by simp
    from Suc.hyps(1) [OF this, of ?ql]
    obtain j ql' where r: "quote_loop lines (i + 1) ?ql = Some (j, ql')" "i + 1 \<le> j"
      by blast
    with i True show ?thesis by (simp add: quote_loop_continue)
  qed
qed

lemma render_line_returns:
  assumes "i < length lines"
  shows "\<exists>j inserted. render_line lines i = Some (j, inserted) \<and> i < j"
proof -
  obtain j cl where f: "fence_loop lines (i + 1) [] = Some (j, cl)" "i + 1 \<le> j"
    using fence_loop_returns by blast
  obtain k ql where q: "quote_loop lines i [] = Some (k, ql)"
      "i < length lines \<and> is_quote (lines ! i) \<longrightarrow> i < k"
    using quote_loop_returns by blast
  from assms f q show ?thesis
    by (simp add: render_line_def index_def Let_def)
qed

lemma render_loop_returns:
  "\<exists>out. render_loop lines i d = Some out"
proof (induction "length lines - i" arbitrary: i d rule: less_induct)
  case less
  show ?case
  proof (cases "i < length lines")
    case False
    then show ?thesis by (simp add: render_loop_end)
  next
    case True
    from render_line_returns [OF True]
    obtain j inserted where r: "render_line lines i = Some (j, inserted)" "i < j" by blast
    from r(2) True have "length lines - j < length lines - i" by simp
    from less [OF this, of "d @ inserted"]
    obtain out where "render_loop lines j (d @ inserted) = Some out" by blast
    with True r show ?thesis by (simp add: render_loop_continue)
  qed
qed

section \<open>The offset counts the removed characters\<close>

text \<open>
  The matches of \<open>scan\<close> are in order and within the text, for a matcher whose matches
  are not empty, not longer than the rest of the text, and not shorter than group 1.
\<close>

lemma well_placed_lower:
  "well_placed lo n ms \<Longrightarrow> lo' \<le> lo \<Longrightarrow> well_placed lo' n ms"
  by (cases ms) auto

lemma scan_well_placed:
  assumes m: "\<And>xs n g. m xs = Some (n, g) \<Longrightarrow> 0 < n \<and> n \<le> length xs \<and> length g \<le> n"
  shows "skip \<le> length xs \<Longrightarrow> well_placed (pos + skip) (pos + length xs) (scan m pos skip xs)"
proof (induction xs arbitrary: pos skip)
  case Nil
  then show ?case by simp
next
  case (Cons c cs)
  show ?case
  proof (cases "0 < skip")
    case True
    with Cons.prems have "skip - 1 \<le> length cs" by simp
    from Cons.IH [OF this, of "pos + 1"] True show ?thesis by simp
  next
    case False
    then have skip: "skip = 0" by simp
    show ?thesis
    proof (cases "m (c # cs)")
      case None
      from Cons.IH [of 0 "pos + 1"] have "well_placed (pos + 1) (pos + 1 + length cs) (scan m (pos + 1) 0 cs)"
        by simp
      then have "well_placed pos (pos + 1 + length cs) (scan m (pos + 1) 0 cs)"
        by (rule well_placed_lower) simp
      with None skip show ?thesis by simp
    next
      case (Some r)
      obtain n g where r: "r = (n, g)" by (cases r)
      from m [of "c # cs" n g] Some r
      have n: "0 < n" "n \<le> Suc (length cs)" "length g \<le> n" by simp_all
      then have "n - 1 \<le> length cs" by simp
      from Cons.IH [OF this, of "pos + 1"] n
      have "well_placed (pos + n) (pos + 1 + length cs) (scan m (pos + 1) (n - 1) cs)"
        by simp
      with Some r skip n show ?thesis by simp
    qed
  qed
qed

lemma finditer_well_placed:
  assumes "\<And>xs n g. m xs = Some (n, g) \<Longrightarrow> 0 < n \<and> n \<le> length xs \<and> length g \<le> n"
  shows "well_placed 0 (length t) (finditer m t)"
  using scan_well_placed [of m 0 t 0, OF assms] by (simp add: finditer_def)

lemma scan_removed:
  assumes m: "\<And>xs n g. m xs = Some (n, g) \<Longrightarrow> n = length g + k"
  shows "\<forall>r \<in> set (scan m pos skip xs). match_end r = match_start r + length (group1 r) + k"
proof (induction xs arbitrary: pos skip)
  case Nil
  then show ?case by simp
next
  case (Cons c cs)
  show ?case
  proof (cases "m (c # cs)")
    case None
    with Cons.IH show ?thesis by simp
  next
    case (Some r)
    obtain n g where r: "r = (n, g)" by (cases r)
    from m [of "c # cs" n g] Some r have "n = length g + k" by simp
    with Some r Cons.IH show ?thesis by simp
  qed
qed

lemma finditer_removed:
  assumes "\<And>xs n g. m xs = Some (n, g) \<Longrightarrow> n = length g + k"
  shows "\<forall>r \<in> set (finditer m t). match_end r = match_start r + length (group1 r) + k"
  using scan_removed [of m k 0 0 t, OF assms] by (simp add: finditer_def)

lemma startswith_length: "startswith s p \<Longrightarrow> length p \<le> length s"
  unfolding startswith_def
proof -
  assume "take (length p) s = p"
  then have "length (take (length p) s) = length p" by simp
  then show "length p \<le> length s" by simp
qed

lemma match_delim_Some:
  assumes "match_delim d c xs = Some (n, g)"
  shows "0 < n \<and> n \<le> length xs \<and> n = length g + 2 * length d"
proof -
  define rest where "rest = drop (length d) xs"
  define content where "content = takeWhile (\<lambda>x. x \<noteq> c) rest"
  from assms have s1: "startswith xs d"
    by (simp add: match_delim_def split: if_splits)
  with assms have c: "content \<noteq> []"
    and s2: "startswith (drop (length content) rest) d"
    and n: "n = 2 * length d + length content" and g: "g = content"
    by (auto simp add: match_delim_def Let_def rest_def content_def split: if_splits)
  from s1 have d: "length d \<le> length xs" by (rule startswith_length)
  from s2 have "length d \<le> length (drop (length content) rest)" by (rule startswith_length)
  moreover have "length content \<le> length rest"
    unfolding content_def by (rule length_takeWhile_le)
  ultimately have "length d + length content \<le> length rest" by simp
  with d have "length d + length content + length d \<le> length xs"
    by (simp add: rest_def)
  with n g c show ?thesis by simp
qed

lemma link_pattern_Some:
  assumes "link_pattern xs = Some (n, g)"
  shows "0 < n \<and> n \<le> length xs \<and> length g \<le> n"
proof -
  define rest where "rest = drop 1 xs"
  define label where "label = takeWhile (\<lambda>x. x \<noteq> of_char CHR '']'') rest"
  define rest2 where "rest2 = drop (length label) rest"
  define rest3 where "rest3 = drop 2 rest2"
  define url where "url = takeWhile (\<lambda>x. x \<noteq> of_char CHR '')'') rest3"
  from assms have s1: "startswith xs (str ''['')"
    by (simp add: link_pattern_def split: if_splits)
  with assms have s2: "label \<noteq> [] \<and> startswith rest2 (str '']('')"
    by (simp add: link_pattern_def Let_def rest_def label_def rest2_def split: if_splits)
  with assms s1 have s3: "startswith (drop (length url) rest3) (str '')'')"
    and n: "n = length label + length url + 4" and g: "g = label"
    by (auto simp add: link_pattern_def Let_def rest_def label_def rest2_def rest3_def url_def
        split: if_splits)
  from s1 have l1: "1 \<le> length xs" using startswith_length by fastforce
  from s2 have l2: "2 \<le> length rest2" using startswith_length by fastforce
  from s3 have "1 \<le> length (drop (length url) rest3)" using startswith_length by fastforce
  then have "length url + 1 \<le> length rest3" by simp
  with l2 have "length url + 3 \<le> length rest2" by (simp add: rest3_def)
  then have "length label + length url + 3 \<le> length rest" by (simp add: rest2_def)
  with l1 have "length label + length url + 4 \<le> length xs" by (simp add: rest_def)
  with n g show ?thesis by simp
qed

lemma for_reversed_length:
  assumes step: "\<And>m st. Q m \<Longrightarrow> match_start m + length (group1 m) \<le> match_end m \<Longrightarrow>
      match_end m \<le> length (processed_text st) \<Longrightarrow>
      length (processed_text (body m st)) + offset (body m st) =
        length (processed_text st) + offset st
      \<and> match_start m \<le> length (processed_text (body m st))"
  shows "well_placed lo (length (processed_text st)) ms \<Longrightarrow> \<forall>m \<in> set ms. Q m \<Longrightarrow>
     length (processed_text (for_reversed body ms st)) + offset (for_reversed body ms st) =
       length (processed_text st) + offset st
     \<and> lo \<le> length (processed_text (for_reversed body ms st))"
proof (induction ms arbitrary: lo)
  case Nil
  then show ?case by (simp add: for_reversed_def)
next
  case (Cons m ms)
  let ?st = "for_reversed body ms st"
  from Cons.prems have wp: "well_placed (match_end m) (length (processed_text st)) ms"
    and lo: "lo \<le> match_start m" and le: "match_start m + length (group1 m) \<le> match_end m"
    and q: "Q m" "\<forall>m \<in> set ms. Q m"
    by simp_all
  from Cons.IH [OF wp q(2)]
  have ih: "length (processed_text ?st) + offset ?st = length (processed_text st) + offset st"
    and e: "match_end m \<le> length (processed_text ?st)"
    by simp_all
  have unfold: "for_reversed body (m # ms) st = body m ?st"
    by (simp add: for_reversed_def)
  from step [OF q(1) le e] ih lo show ?case
    unfolding unfold by simp
qed

lemma replace_span_length:
  assumes "s + length c \<le> e" and "e \<le> length t"
  shows "length (replace_span t s e c) + (e - s - length c) = length t"
    and "s \<le> length (replace_span t s e c)"
  using assms by (auto simp add: replace_span_def min_def)

lemma code_step_length:
  assumes "match_end m = match_start m + length (group1 m) + 2"
    and "match_end m \<le> length (processed_text st)"
  shows "length (processed_text (code_step m st)) + offset (code_step m st) =
           length (processed_text st) + offset st
         \<and> match_start m \<le> length (processed_text (code_step m st))"
  using assms
    replace_span_length [of "match_start m" "group1 m" "match_end m" "processed_text st"]
  by (simp add: code_step_def Let_def)

lemma delim_step_length:
  assumes "match_end m = match_start m + length (group1 m) + k"
    and "match_end m \<le> length (processed_text st)"
  shows "length (processed_text (delim_step ty k cr m st)) + offset (delim_step ty k cr m st) =
           length (processed_text st) + offset st
         \<and> match_start m \<le> length (processed_text (delim_step ty k cr m st))"
  using assms
    replace_span_length [of "match_start m" "group1 m" "match_end m" "processed_text st"]
  by (simp add: delim_step_def Let_def)

lemma link_step_length:
  assumes "match_start m + length (group1 m) \<le> match_end m"
    and "match_end m \<le> length (processed_text st)"
  shows "length (processed_text (link_step cr m st)) + offset (link_step cr m st) =
           length (processed_text st) + offset st
         \<and> match_start m \<le> length (processed_text (link_step cr m st))"
  using assms
    replace_span_length [of "match_start m" "group1 m" "match_end m" "processed_text st"]
  by (auto simp add: link_step_def Let_def)

lemma delim_pass_length:
  assumes k: "k = 2 * length d"
  shows "length (processed_text (for_reversed (delim_step ty k cr)
             (finditer (match_delim d c) (processed_text st)) st))
         + offset (for_reversed (delim_step ty k cr)
             (finditer (match_delim d c) (processed_text st)) st)
         = length (processed_text st) + offset st"
proof -
  let ?ms = "finditer (match_delim d c) (processed_text st)"
  have wp: "well_placed 0 (length (processed_text st)) ?ms"
    by (rule finditer_well_placed) (use match_delim_Some in fastforce)
  have rm: "\<forall>r \<in> set ?ms. match_end r = match_start r + length (group1 r) + k"
    by (rule finditer_removed) (use match_delim_Some k in fastforce)
  from for_reversed_length [of "\<lambda>r. match_end r = match_start r + length (group1 r) + k"
      "delim_step ty k cr" 0 st ?ms, OF delim_step_length wp rm]
  show ?thesis by simp
qed

lemma code_pass_length:
  "length (processed_text (for_reversed code_step (finditer code_pattern (processed_text st)) st))
   + offset (for_reversed code_step (finditer code_pattern (processed_text st)) st)
   = length (processed_text st) + offset st"
proof -
  let ?ms = "finditer code_pattern (processed_text st)"
  have wp: "well_placed 0 (length (processed_text st)) ?ms"
    unfolding code_pattern_def
    by (rule finditer_well_placed) (use match_delim_Some in fastforce)
  have rm: "\<forall>r \<in> set ?ms. match_end r = match_start r + length (group1 r) + 2"
    unfolding code_pattern_def
    by (rule finditer_removed) (use match_delim_Some in fastforce)
  from for_reversed_length [of "\<lambda>r. match_end r = match_start r + length (group1 r) + 2"
      code_step 0 st ?ms, OF code_step_length wp rm]
  show ?thesis by simp
qed

lemma link_pass_length:
  "length (processed_text (for_reversed (link_step cr)
       (finditer link_pattern (processed_text st)) st))
   + offset (for_reversed (link_step cr) (finditer link_pattern (processed_text st)) st)
   = length (processed_text st) + offset st"
proof -
  let ?ms = "finditer link_pattern (processed_text st)"
  have wp: "well_placed 0 (length (processed_text st)) ?ms"
    by (rule finditer_well_placed) (use link_pattern_Some in fastforce)
  from for_reversed_length [of "\<lambda>r. True" "link_step cr" 0 st ?ms, OF link_step_length wp]
  show ?thesis by simp
qed

text \<open>
  C9.  For every line, when the inline formatter returns, the length of the line is the
  length of the returned text plus the offset: the offset has counted every removed
  character.  The inline-code step adds 2; a step of the passes 2 to 5 adds its number
  \<open>k\<close> (4, 6, 4, 2) when the match is accepted, and leaves text and offset as they are
  when it is skipped.
\<close>

theorem offset_counts_removed_characters:
  "length text =
     length (fst (process_inline_formatting text)) + offset (inline_passes text)
   \<and> offset (code_step m st) = offset st + 2
   \<and> offset (delim_step ty k code_ranges m st) =
       (if position_in_ranges (match_start m) (match_end m) code_ranges (offset st)
        then offset st else offset st + k)
   \<and> processed_text (delim_step ty k code_ranges m st) =
       (if position_in_ranges (match_start m) (match_end m) code_ranges (offset st)
        then processed_text st
        else replace_span (processed_text st) (match_start m) (match_end m) (group1 m))"
proof -
  define st0 where "st0 = \<lparr>processed_text = text, formats = [], offset = 0\<rparr>"
  define cr where
    "cr = map (\<lambda>m. (match_start m, match_end m)) (finditer code_pattern text)"
  define st1 where "st1 = for_reversed code_step (finditer code_pattern (processed_text st0)) st0"
  define st2 where "st2 = for_reversed (delim_step Strikethrough 4 cr)
      (finditer strikethrough_pattern (processed_text st1)) st1"
  define st3 where "st3 = for_reversed (delim_step Bold_italic 6 cr)
      (finditer bold_italic_pattern (processed_text st2)) st2"
  define st4 where "st4 = for_reversed (delim_step Bold 4 cr)
      (finditer bold_pattern (processed_text st3)) st3"
  define st5 where "st5 = for_reversed (delim_step Italic 2 cr)
      (finditer italic_pattern (processed_text st4)) st4"
  define st6 where "st6 = for_reversed (link_step cr)
      (finditer link_pattern (processed_text st5)) st5"
  have passes: "inline_passes text = st6"
    by (simp add: inline_passes_def Let_def st0_def cr_def st1_def st2_def st3_def st4_def
        st5_def st6_def)
  have "length (processed_text st0) + offset st0 = length text"
    by (simp add: st0_def)
  then have "length (processed_text st1) + offset st1 = length text"
    unfolding st1_def by (simp add: code_pass_length)
  then have "length (processed_text st2) + offset st2 = length text"
    unfolding st2_def strikethrough_pattern_def by (simp add: delim_pass_length)
  then have "length (processed_text st3) + offset st3 = length text"
    unfolding st3_def bold_italic_pattern_def by (simp add: delim_pass_length)
  then have "length (processed_text st4) + offset st4 = length text"
    unfolding st4_def bold_pattern_def by (simp add: delim_pass_length)
  then have "length (processed_text st5) + offset st5 = length text"
    unfolding st5_def italic_pattern_def by (simp add: delim_pass_length)
  then have "length (processed_text st6) + offset st6 = length text"
    unfolding st6_def by (simp add: link_pass_length)
  with passes show ?thesis
    by (simp add: process_inline_formatting_def code_step_def delim_step_def Let_def)
qed

section \<open>Plain-text mode\<close>

text \<open>
  C7.  For every raw content, rendering as plain text leaves in the widget exactly one
  insertion, the raw content itself under the single tag \<^verbatim>\<open>normal\<close>; the text shown is
  the raw content character for character, whatever markdown it contains, and the raw
  content is not changed.
\<close>

theorem plain_text_identity:
  "display (render_as_plain_text w) = [Tagged (raw_content w) Normal]
   \<and> shown_text (display (render_as_plain_text w)) = raw_content w
   \<and> raw_content (render_as_plain_text w) = raw_content w"
  by (simp add: render_as_plain_text_def shown_text_def)

section \<open>Evaluating the renderer on given texts\<close>

text \<open>
  The definitions to unfold for one line, and the rounds of the loops, for the
  evaluation of the renderer on a given text.
\<close>

lemmas line_defs = render_line_def index_def is_fence_def strip_def strip_chars_def
  startswith_def is_space_def is_heading_def hash_count_def title_text_def is_quote_def
  is_list_item_def unordered_match_def ordered_match_def is_digit_def digit_ranges_def
  is_rule_def newline_def sub_ordered_def sub_unordered_def bullet_def lstrip_chars_def

lemmas loop_steps = render_markdown_text_def render_loop_continue render_loop_end
  fence_loop_continue fence_loop_stop fence_loop_end
  quote_loop_continue quote_loop_stop quote_loop_end

lemma inline_example:
  "process_inline_formatting (str ''Some **bold** and *italic* and `code`.'') =
     (str ''Some bold and italic and code.'',
      [\<lparr>fmt_start = 31, fmt_end = 35, fmt_type = Inline_code\<rparr>,
       \<lparr>fmt_start = 5, fmt_end = 9, fmt_type = Bold\<rparr>,
       \<lparr>fmt_start = 14, fmt_end = 20, fmt_type = Italic\<rparr>])"
  by code_simp

lemma inline_empty: "process_inline_formatting [] = ([], [])"
  by code_simp

lemma inline_hashes:
  "process_inline_formatting (str ''##'') = (str ''##'', [])"
  "process_inline_formatting (str ''## '') = (str ''## '', [])"
  "process_inline_formatting (str ''# #'') = (str ''# #'', [])"
  "process_inline_formatting (str ''##### Too Deep'') = (str ''##### Too Deep'', [])"
  "process_inline_formatting (str ''##### **x**'') =
     (str ''##### x'', [\<lparr>fmt_start = 6, fmt_end = 7, fmt_type = Bold\<rparr>])"
  "process_inline_formatting (str ''a * b'') = (str ''a * b'', [])"
  by code_simp+

section \<open>Spans of the inline formatter\<close>

text \<open>
  C1.  The claim: the format entries returned for a line never overlap, a match of a later
  pass that overlaps a range claimed by an earlier pass being skipped.  The passes test
  a match against the ranges of the inline code only.  On \<^verbatim>\<open>**x ***a*** y**\<close> the bold
  pass accepts a match around the bold-italic entry recorded before it, and on
  \<^verbatim>\<open>~~*a*~~\<close> the italic pass accepts a match inside the strikethrough entry: in both
  results two entries overlap.
\<close>

theorem later_pass_overlaps_earlier_span:
  "process_inline_formatting (str ''**x ***a*** y**'') =
     (str ''x a y'',
      [\<lparr>fmt_start = 4, fmt_end = 5, fmt_type = Bold_italic\<rparr>,
       \<lparr>fmt_start = 0, fmt_end = 5, fmt_type = Bold\<rparr>])
   \<and> overlap \<lparr>fmt_start = 4, fmt_end = 5, fmt_type = Bold_italic\<rparr>
        \<lparr>fmt_start = 0, fmt_end = 5, fmt_type = Bold\<rparr>
   \<and> process_inline_formatting (str ''~~*a*~~'') =
     (str ''a'',
      [\<lparr>fmt_start = 0, fmt_end = 3, fmt_type = Strikethrough\<rparr>,
       \<lparr>fmt_start = 0, fmt_end = 1, fmt_type = Italic\<rparr>])
   \<and> overlap \<lparr>fmt_start = 0, fmt_end = 3, fmt_type = Strikethrough\<rparr>
        \<lparr>fmt_start = 0, fmt_end = 1, fmt_type = Italic\<rparr>"
  by code_simp

text \<open>
  C2.  The claim: for the text of the end-to-end example the renderer gives one heading
  of level 1 with the text \<^verbatim>\<open>Title\<close> and one paragraph with the text
  \<^verbatim>\<open>Some bold and italic and code.\<close>, whose entries cover \<^verbatim>\<open>bold\<close>, \<^verbatim>\<open>italic\<close> and
  \<^verbatim>\<open>code\<close> at their positions in that text.  The renderer gives the heading, and for
  each of the three other lines of the split text (two of them empty) one insertion of
  the paragraph branch.  The bold and italic entries are at the positions of the final
  text; the inline-code entry is at 31 to 35, where the word stood before the later
  passes removed six characters to its left, while the final text has the word at 25 to
  29 and ends at 30.
\<close>

theorem end_to_end_example:
  "render_markdown_text
     (str ''# Title\<newline>\<newline>Some **bold** and *italic* and `code`.\<newline>'') =
   Some [Tagged (str ''Title\<newline>'') (H 1),
         Formatted (str ''\<newline>'') [],
         Formatted (str ''Some bold and italic and code.\<newline>'')
           [\<lparr>fmt_start = 31, fmt_end = 35, fmt_type = Inline_code\<rparr>,
            \<lparr>fmt_start = 5, fmt_end = 9, fmt_type = Bold\<rparr>,
            \<lparr>fmt_start = 14, fmt_end = 20, fmt_type = Italic\<rparr>],
         Formatted (str ''\<newline>'') []]
   \<and> take 4 (drop 25 (str ''Some bold and italic and code.'')) = str ''code''
   \<and> length (str ''Some bold and italic and code.'') = 30"
  by (simp add: loop_steps line_defs inline_example [simplified] inline_empty)

text \<open>
  C3.  The claim: for any line containing \<^verbatim>\<open>`**not bold**`\<close> the result has one
  inline-code entry over the inner text and no bold entry, the asterisks staying in the
  text.  This holds for the line that is nothing else.  On the line
  \<^verbatim>\<open>`**not bold**` ~~a~~ ~~b~~ ~~c~~\<close> the offset has grown to 14 when the bold pass
  tests its match at 0 to 12, the test shifts the match to 14 to 26, outside the code
  range 0 to 14, and the match is accepted: the asterisks are removed and a bold entry
  is recorded inside the code.
\<close>

theorem bold_inside_code_accepted:
  "process_inline_formatting (str ''`**not bold**` ~~a~~ ~~b~~ ~~c~~'') =
     (str ''not bold a b c'',
      [\<lparr>fmt_start = 0, fmt_end = 12, fmt_type = Inline_code\<rparr>,
       \<lparr>fmt_start = 25, fmt_end = 26, fmt_type = Strikethrough\<rparr>,
       \<lparr>fmt_start = 19, fmt_end = 20, fmt_type = Strikethrough\<rparr>,
       \<lparr>fmt_start = 13, fmt_end = 14, fmt_type = Strikethrough\<rparr>,
       \<lparr>fmt_start = 0, fmt_end = 8, fmt_type = Bold\<rparr>])
   \<and> process_inline_formatting (str ''`**not bold**`'') =
     (str ''**not bold**'',
      [\<lparr>fmt_start = 0, fmt_end = 12, fmt_type = Inline_code\<rparr>])"
  by code_simp

section \<open>Blocks\<close>

text \<open>
  C5.  The claim: a line matching one of the two list patterns becomes one list item, an
  unordered marker replaced by the bullet and a space after the kept indentation, an
  ordered item shown as the line is.  The replacement of the second substitution is group
  1 followed by the whole match, which starts with group 1 again: an indented ordered
  item is shown with its indentation twice.  An ordered item with no indentation is shown
  as it is, and an unordered item as the claim says.
\<close>

theorem ordered_item_indentation_doubled:
  "render_markdown_text (str ''  1. item'') =
     Some [Tagged (str ''    1. item\<newline>'') List_item]
   \<and> render_markdown_text (str ''1. item'') =
     Some [Tagged (str ''1. item\<newline>'') List_item]
   \<and> render_markdown_text (str ''  -   item'') =
     Some [Tagged (str ''  '' @ [bullet] @ str '' item\<newline>'') List_item]"
  by (simp add: loop_steps line_defs)

text \<open>
  C10.  The claim: a line whose trimmed content is one to four \<^verbatim>\<open>#\<close> and nothing else
  gives no heading and is shown by the paragraph branch as it is.  This holds for
  \<^verbatim>\<open>##\<close> and for \<^verbatim>\<open>##\<close> followed by a space.  With white space on both sides,
  \<^verbatim>\<open>line.strip('#')\<close> removes nothing, the title text is the run of \<^verbatim>\<open>#\<close> itself, and
  the line is inserted as a heading under the tag \<^verbatim>\<open>h0\<close>.
\<close>

theorem bare_hashes_between_spaces:
  "render_markdown_text (str '' ## '') = Some [Tagged (str ''##\<newline>'') (H 0)]
   \<and> render_markdown_text (str ''##'') = Some [Formatted (str ''##\<newline>'') []]
   \<and> render_markdown_text (str ''## '') = Some [Formatted (str ''## \<newline>'') []]"
  by (simp add: loop_steps line_defs inline_hashes [simplified])

text \<open>
  C4, the claim as stated fails.  The claim: the heading text is the line without the run
  of \<^verbatim>\<open>#\<close> and one following space, for every line with one to four \<^verbatim>\<open>#\<close> followed by
  another character; and a line with more than four becomes a paragraph with its literal
  text.  The renderer removes the \<^verbatim>\<open>#\<close> at both ends and then all the white space
  around the rest (first four conjuncts); it gives no heading when nothing is left
  (fifth); and the paragraph of a line with more than four \<^verbatim>\<open>#\<close> goes through the
  inline formatter (sixth).
\<close>

theorem heading_text_counterexample:
  "render_markdown_text (str ''## Title ##'') = Some [Tagged (str ''Title\<newline>'') (H 2)]
   \<and> render_markdown_text (str ''## Title ##'') \<noteq> Some [Tagged (str ''Title ##\<newline>'') (H 2)]
   \<and> render_markdown_text (str ''#  Title'') = Some [Tagged (str ''Title\<newline>'') (H 1)]
   \<and> render_markdown_text (str ''#  Title'') \<noteq> Some [Tagged (str '' Title\<newline>'') (H 1)]
   \<and> render_markdown_text (str ''# #'') = Some [Formatted (str ''# #\<newline>'') []]
   \<and> render_markdown_text (str ''##### **x**'') =
       Some [Formatted (str ''##### x\<newline>'')
               [\<lparr>fmt_start = 6, fmt_end = 7, fmt_type = Bold\<rparr>]]"
  by (simp add: loop_steps line_defs inline_hashes [simplified])

section \<open>Fenced code\<close>

text \<open>
  What the two inner loops return, for every list of lines and every start: the fence loop
  stops at the first fence line from \<open>k\<close> on, or at the end, and has appended the lines
  before it as they are; the quote loop stops at the first line that is no quote.
\<close>

lemma fence_loop_takeWhile:
  "fence_loop ls k cl =
     Some (k + length (takeWhile (\<lambda>l. \<not> is_fence l) (drop k ls)),
           cl @ takeWhile (\<lambda>l. \<not> is_fence l) (drop k ls))"
proof (induction "length ls - k" arbitrary: k cl)
  case 0
  then show ?case by (simp add: fence_loop_end)
next
  case (Suc n)
  then have k: "k < length ls" by simp
  then have d: "drop k ls = ls ! k # drop (k + 1) ls"
    by (simp add: Cons_nth_drop_Suc)
  show ?case
  proof (cases "is_fence (ls ! k)")
    case True
    with k d show ?thesis by (simp add: fence_loop_stop)
  next
    case False
    from Suc.hyps(2) have "n = length ls - (k + 1)" by simp
    from Suc.hyps(1) [OF this, of "cl @ [ls ! k]"] k False d
    show ?thesis by (simp add: fence_loop_continue)
  qed
qed

lemma quote_loop_takeWhile:
  "quote_loop ls k ql =
     Some (k + length (takeWhile is_quote (drop k ls)),
           ql @ map (\<lambda>l. strip (lstrip_chars (\<lambda>c. c = of_char CHR ''>'') (strip l)))
                  (takeWhile is_quote (drop k ls)))"
proof (induction "length ls - k" arbitrary: k ql)
  case 0
  then show ?case by (simp add: quote_loop_end)
next
  case (Suc n)
  then have k: "k < length ls" by simp
  then have d: "drop k ls = ls ! k # drop (k + 1) ls"
    by (simp add: Cons_nth_drop_Suc)
  show ?case
  proof (cases "is_quote (ls ! k)")
    case False
    with k d show ?thesis by (simp add: quote_loop_stop)
  next
    case True
    from Suc.hyps(2) have "n = length ls - (k + 1)" by simp
    from Suc.hyps(1) [OF this,
        of "ql @ [strip (lstrip_chars (\<lambda>c. c = of_char CHR ''>'') (strip (ls ! k)))]"] k True d
    show ?thesis by (simp add: quote_loop_continue)
  qed
qed

text \<open>
  A round of the loop at a line looks at that line and the lines after it only, so the
  loop started at line \<open>k\<close> does what the loop does on the lines from \<open>k\<close> on; and what
  was inserted before a round is kept in front of what the rounds insert.
\<close>

lemma render_line_drop:
  assumes "i + k < length ls"
  shows "render_line ls (i + k) =
           map_option (\<lambda>(j, ins). (j + k, ins)) (render_line (drop k ls) i)"
proof -
  have n: "drop k ls ! i = ls ! (i + k)" "i < length ls - k"
    using assms by (simp_all add: add.commute)
  show ?thesis
    using assms n
    by (simp add: render_line_def index_def fence_loop_takeWhile quote_loop_takeWhile Let_def)
qed

lemma render_loop_drop:
  "render_loop ls (i + k) d = render_loop (drop k ls) i d"
proof (induction "length ls - (i + k)" arbitrary: i d rule: less_induct)
  case less
  show ?case
  proof (cases "i + k < length ls")
    case False
    then show ?thesis by (simp add: render_loop_end)
  next
    case True
    then have i: "i < length (drop k ls)" by simp
    from render_line_returns [OF i]
    obtain j ins where r: "render_line (drop k ls) i = Some (j, ins)" "i < j" by blast
    with True have r': "render_line ls (i + k) = Some (j + k, ins)"
      by (simp add: render_line_drop)
    from r(2) True have "length ls - (j + k) < length ls - (i + k)" by simp
    from less [OF this, of "d @ ins"] True i r r'
    show ?thesis by (simp add: render_loop_continue)
  qed
qed

lemma render_loop_accumulates:
  "render_loop ls i (d @ e) = map_option ((@) d) (render_loop ls i e)"
proof (induction "length ls - i" arbitrary: i e rule: less_induct)
  case less
  show ?case
  proof (cases "i < length ls")
    case False
    then show ?thesis by (simp add: render_loop_end)
  next
    case True
    from render_line_returns [OF True]
    obtain j ins where r: "render_line ls i = Some (j, ins)" "i < j" by blast
    from r(2) True have "length ls - j < length ls - i" by simp
    from less [OF this, of "e @ ins"] True r
    show ?thesis by (simp add: render_loop_continue)
  qed
qed

text \<open>
  The first round on a list of lines, branch by branch.
\<close>

lemma fence_not_quote: "is_fence l \<Longrightarrow> \<not> is_quote l"
  by (cases "strip l") (auto simp add: is_fence_def is_quote_def startswith_def)

lemma render_line_first:
  "render_line (l # zs) 0 =
     Some (if is_fence l then
             (length (takeWhile (\<lambda>l. \<not> is_fence l) zs) + 2,
              if takeWhile (\<lambda>l. \<not> is_fence l) zs \<noteq> []
              then [Tagged (join_str newline (takeWhile (\<lambda>l. \<not> is_fence l) zs) @ newline)
                      Code_block]
              else [])
           else if is_heading l then
             (1, [Tagged (title_text l @ newline) (H (hash_count l))])
           else if is_quote l then
             (length (takeWhile is_quote (l # zs)),
              [Tagged (join_str newline
                  (map (\<lambda>l. strip (lstrip_chars (\<lambda>c. c = of_char CHR ''>'') (strip l)))
                     (takeWhile is_quote (l # zs))) @ newline) Blockquote])
           else if is_list_item l then
             (1, [Tagged (sub_ordered (sub_unordered l) @ newline) List_item])
           else if is_rule l then
             (1, [Tagged (replicate 50 rule_glyph @ newline) Normal])
           else
             (1, [Formatted (fst (process_inline_formatting l) @ newline)
                    (snd (process_inline_formatting l))]))"
  by (simp add: render_line_def index_def fence_loop_takeWhile quote_loop_takeWhile Let_def)

text \<open>
  Lines with an even number of fence lines among them are rendered on their own when a
  fence line, or nothing, follows them: every fence they open is closed within them, and a
  run of quotes at their end does not go on into a fence line.
\<close>

lemma odd_fences_split:
  assumes "odd (length (filter is_fence zs))"
  shows "length (takeWhile (\<lambda>l. \<not> is_fence l) zs) < length zs"
    and "even (length (filter is_fence
           (drop (length (takeWhile (\<lambda>l. \<not> is_fence l) zs) + 1) zs)))"
proof -
  let ?tw = "takeWhile (\<lambda>l. \<not> is_fence l) zs"
  let ?dw = "dropWhile (\<lambda>l. \<not> is_fence l) zs"
  have id: "zs = ?tw @ ?dw" by simp
  have no: "filter is_fence ?tw = []"
    by (auto simp add: filter_empty_conv dest: set_takeWhileD)
  from assms have "?dw \<noteq> []"
  proof (cases ?dw)
    case Nil
    with id have "zs = ?tw" by simp
    with no have "filter is_fence zs = []" by metis
    with assms show ?thesis by simp
  qed simp
  then obtain c rest where dw: "?dw = c # rest" by (cases ?dw) auto
  then have c: "is_fence c" using hd_dropWhile [of "\<lambda>l. \<not> is_fence l" zs] by auto
  from id dw have zs: "zs = ?tw @ c # rest" by simp
  then have "length zs = length ?tw + 1 + length rest"
    by (metis length_append length_Cons Suc_eq_plus1 add.assoc add.commute)
  then show "length ?tw < length zs" by simp
  have "filter is_fence zs = filter is_fence ?tw @ filter is_fence (c # rest)"
    using zs by (metis filter_append)
  with no c have cnt: "length (filter is_fence zs) = Suc (length (filter is_fence rest))"
    by simp
  have "drop (length ?tw + 1) zs = rest"
    using zs by (metis append_eq_conv_conj drop_Suc_Cons drop_drop Suc_eq_plus1 add.commute drop0)
  with cnt assms show "even (length (filter is_fence
           (drop (length (takeWhile (\<lambda>l. \<not> is_fence l) zs) + 1) zs)))"
    by simp
qed

lemma quotes_no_fence: "filter is_fence (takeWhile is_quote xs) = []"
  by (auto simp add: filter_empty_conv dest: set_takeWhileD fence_not_quote)

lemma takeWhile_quote_append:
  assumes "ys = [] \<or> is_fence (hd ys)"
  shows "takeWhile is_quote (xs @ ys) = takeWhile is_quote xs"
proof (cases "\<forall>x \<in> set xs. is_quote x")
  case True
  from assms have b: "takeWhile is_quote ys = []"
    by (cases ys) (auto dest: fence_not_quote)
  from True have c: "takeWhile is_quote xs = xs"
    by (simp add: takeWhile_eq_all_conv)
  from True have a: "takeWhile is_quote (xs @ ys) = xs @ takeWhile is_quote ys"
    by (intro takeWhile_append2) simp
  show ?thesis by (simp only: a b c append_Nil2)
next
  case False
  then obtain x where "x \<in> set xs" "\<not> is_quote x" by blast
  then show ?thesis by (rule takeWhile_append1)
qed

lemma first_round_in_prefix:
  assumes "xs \<noteq> []" and "even (length (filter is_fence xs))"
    and "ys = [] \<or> is_fence (hd ys)"
  shows "\<exists>j ins. render_line (xs @ ys) 0 = Some (j, ins) \<and> render_line xs 0 = Some (j, ins)
           \<and> 0 < j \<and> j \<le> length xs \<and> even (length (filter is_fence (drop j xs)))"
proof -
  from assms(1) obtain l zs where xs: "xs = l # zs" by (cases xs) auto
  show ?thesis
  proof (cases "is_fence l")
    case True
    with assms(2) xs have odd: "odd (length (filter is_fence zs))" by simp
    let ?tw = "takeWhile (\<lambda>l. \<not> is_fence l) zs"
    from odd_fences_split [OF odd]
    have lt: "length ?tw < length zs"
      and ev: "even (length (filter is_fence (drop (length ?tw + 1) zs)))" by simp_all
    have "\<not> (\<forall>x \<in> set zs. \<not> is_fence x)"
    proof
      assume "\<forall>x \<in> set zs. \<not> is_fence x"
      then have "?tw = zs" by (simp add: takeWhile_eq_all_conv)
      with lt show False by simp
    qed
    then obtain x where "x \<in> set zs" "\<not> \<not> is_fence x" by blast
    then have app: "takeWhile (\<lambda>l. \<not> is_fence l) (zs @ ys) = ?tw"
      by (rule takeWhile_append1)
    have r1: "render_line (l # zs @ ys) 0 =
        Some (length ?tw + 2,
          if ?tw \<noteq> [] then [Tagged (join_str newline ?tw @ newline) Code_block] else [])"
      unfolding render_line_first app using True by simp
    have r2: "render_line (l # zs) 0 =
        Some (length ?tw + 2,
          if ?tw \<noteq> [] then [Tagged (join_str newline ?tw @ newline) Code_block] else [])"
      unfolding render_line_first using True by simp
    have "drop (length ?tw + 2) (l # zs) = drop (length ?tw + 1) zs" by simp
    with r1 r2 lt ev xs show ?thesis by simp
  next
    case False
    note nf = False
    show ?thesis
    proof (cases "\<not> is_heading l \<and> is_quote l")
      case True
      let ?q = "takeWhile is_quote (l # zs)"
      have app: "takeWhile is_quote (l # zs @ ys) = ?q"
        using takeWhile_quote_append [OF assms(3), of "l # zs"] by simp
      have len: "0 < length ?q" "length ?q \<le> length (l # zs)"
        using True by (simp_all add: length_takeWhile_le)
      have "filter is_fence (l # zs) = filter is_fence (?q @ dropWhile is_quote (l # zs))"
        by (simp only: takeWhile_dropWhile_id)
      also have "\<dots> = filter is_fence (dropWhile is_quote (l # zs))"
        unfolding filter_append quotes_no_fence by simp
      finally have "filter is_fence (drop (length ?q) (l # zs)) = filter is_fence (l # zs)"
        by (simp add: dropWhile_eq_drop)
      with assms(2) xs have ev: "even (length (filter is_fence (drop (length ?q) (l # zs))))"
        by simp
      have r1: "render_line (l # zs @ ys) 0 =
          Some (length ?q,
            [Tagged (join_str newline
                (map (\<lambda>l. strip (lstrip_chars (\<lambda>c. c = of_char CHR ''>'') (strip l))) ?q)
                @ newline) Blockquote])"
        unfolding render_line_first app using True nf by simp
      have r2: "render_line (l # zs) 0 =
          Some (length ?q,
            [Tagged (join_str newline
                (map (\<lambda>l. strip (lstrip_chars (\<lambda>c. c = of_char CHR ''>'') (strip l))) ?q)
                @ newline) Blockquote])"
        unfolding render_line_first using True nf by simp
      from r1 r2 len ev show ?thesis unfolding xs append_Cons by blast
    next
      case False
      have eq: "render_line (l # zs @ ys) 0 = render_line (l # zs) 0"
        unfolding render_line_first using nf False by (cases "is_heading l") simp_all
      have one: "fst (the (render_line (l # zs) 0)) = 1"
        unfolding render_line_first using nf False by (cases "is_heading l") simp_all
      from render_line_returns [of 0 "l # zs"]
      obtain j ins where r: "render_line (l # zs) 0 = Some (j, ins)" by auto
      with one have j: "j = 1" by simp
      from nf assms(2) xs have "even (length (filter is_fence (drop 1 (l # zs))))" by simp
      with r j eq show ?thesis unfolding xs append_Cons by auto
    qed
  qed
qed

lemma render_loop_append:
  "even (length (filter is_fence xs)) \<Longrightarrow> ys = [] \<or> is_fence (hd ys) \<Longrightarrow>
   render_loop (xs @ ys) 0 d = Option.bind (render_loop xs 0 d) (\<lambda>d'. render_loop ys 0 d')"
proof (induction "length xs" arbitrary: xs d rule: less_induct)
  case less
  show ?case
  proof (cases "xs = []")
    case True
    then show ?thesis by (simp add: render_loop_end)
  next
    case False
    from first_round_in_prefix [OF False less.prems]
    obtain j ins where r: "render_line (xs @ ys) 0 = Some (j, ins)"
        "render_line xs 0 = Some (j, ins)" "0 < j" "j \<le> length xs"
        "even (length (filter is_fence (drop j xs)))"
      by blast
    from False r(3) have shorter: "length (drop j xs) < length xs" by simp
    have "render_loop (xs @ ys) 0 d = render_loop (xs @ ys) j (d @ ins)"
      using False r(1) by (simp add: render_loop_continue)
    also have "\<dots> = render_loop (drop j (xs @ ys)) 0 (d @ ins)"
      using render_loop_drop [of "xs @ ys" 0 j] by simp
    also have "\<dots> = render_loop (drop j xs @ ys) 0 (d @ ins)"
      using r(4) by simp
    also have "\<dots> = Option.bind (render_loop (drop j xs) 0 (d @ ins)) (\<lambda>d'. render_loop ys 0 d')"
      by (rule less.hyps [OF shorter r(5) less.prems(2)])
    also have "render_loop (drop j xs) 0 (d @ ins) = render_loop xs j (d @ ins)"
      using render_loop_drop [of xs 0 j] by simp
    also have "\<dots> = render_loop xs 0 d"
      using False r(2) by (simp add: render_loop_continue)
    finally show ?thesis .
  qed
qed

lemma not_fence_empty: "\<not> is_fence []"
  by (simp add: is_fence_def strip_def strip_chars_def startswith_def)

lemma render_fenced_block:
  assumes h1: "even (length (filter is_fence pre))"
    and h2: "is_fence fence_line"
    and h3: "list_all (\<lambda>l. \<not> is_fence l) body"
    and h4: "tail = [] \<or> is_fence (hd tail)"
  shows "\<exists>B A. render_loop pre 0 [] = Some B \<and> render_loop (tl tail) 0 [] = Some A
           \<and> render_loop (pre @ fence_line # body @ tail) 0 [] =
               Some (B @ (if body = [] then []
                          else [Tagged (join_str newline body @ newline) Code_block]) @ A)"
proof -
  let ?code = "if body = [] then [] else [Tagged (join_str newline body @ newline) Code_block]"
  let ?ys = "fence_line # body @ tail"
  obtain B where B: "render_loop pre 0 [] = Some B"
    using render_loop_returns by blast
  obtain A where A: "render_loop (tl tail) 0 [] = Some A"
    using render_loop_returns by blast
  from h4 have "takeWhile (\<lambda>l. \<not> is_fence l) tail = []"
    by (cases tail) auto
  moreover from h3 have "takeWhile (\<lambda>l. \<not> is_fence l) (body @ tail)
      = body @ takeWhile (\<lambda>l. \<not> is_fence l) tail"
    by (intro takeWhile_append2) (simp add: list_all_iff)
  ultimately have tw: "takeWhile (\<lambda>l. \<not> is_fence l) (body @ tail) = body" by simp
  have line: "render_line ?ys 0 = Some (length body + 2, ?code)"
    unfolding render_line_first tw using h2 by simp
  have rest: "drop (length body + 2) ?ys = tl tail"
    by (cases tail) simp_all
  have "render_loop (pre @ ?ys) 0 [] = render_loop ?ys 0 B"
    using render_loop_append [of pre ?ys "[]"] h1 h2 B by simp
  also have "\<dots> = render_loop ?ys (length body + 2) (B @ ?code)"
    using line by (simp add: render_loop_continue)
  also have "\<dots> = render_loop (tl tail) 0 (B @ ?code)"
    using render_loop_drop [of ?ys 0 "length body + 2" "B @ ?code"] rest by simp
  also have "\<dots> = Some ((B @ ?code) @ A)"
    using render_loop_accumulates [of "tl tail" 0 "B @ ?code" "[]"] A by simp
  finally show ?thesis using B A by simp
qed

lemma inline_plain:
  "process_inline_formatting (str ''intro'') = (str ''intro'', [])"
  "process_inline_formatting (str ''**after**'') =
     (str ''after'', [\<lparr>fmt_start = 0, fmt_end = 5, fmt_type = Bold\<rparr>])"
  "process_inline_formatting (str ''**b**'') =
     (str ''b'', [\<lparr>fmt_start = 0, fmt_end = 1, fmt_type = Bold\<rparr>])"
  by code_simp+

text \<open>
  C6, the claim as stated fails.  The claim speaks of every line whose trimmed content
  starts with three backticks.  In the text below the third line is such a line, and it
  closes the fence the first line opened: the two lines after it, up to the end of the
  text, are not code but a paragraph with a bold entry and a heading.
\<close>

theorem closing_fence_counterexample:
  "split_str 10 (str ''```\<newline>a\<newline>```\<newline>**b**\<newline># h'') =
     [str ''```'', str ''a'', str ''```'', str ''**b**'', str ''# h'']
   \<and> is_fence (str ''```'')
   \<and> render_markdown_text (str ''```\<newline>a\<newline>```\<newline>**b**\<newline># h'') =
     Some [Tagged (str ''a\<newline>'') Code_block,
           Formatted (str ''b\<newline>'') [\<lparr>fmt_start = 0, fmt_end = 1, fmt_type = Bold\<rparr>],
           Tagged (str ''h\<newline>'') (H 1)]"
  by (simp add: loop_steps line_defs inline_plain [simplified])

text \<open>
  C6, amended.  For every text, and every line of it whose trimmed content starts with
  three backticks and that has an even number of such lines before it (so it opens a
  fence): with \<open>body\<close> the lines after it up to the next such line, or up to the end of
  the text when there is none, and \<open>tail\<close> the lines from that next line on, the renderer
  returns, and what it inserts is what it inserts for the lines before the fence, then,
  unless \<open>body\<close> is empty, one text under the tag \<^verbatim>\<open>code_block\<close> which is the lines of
  \<open>body\<close> character for character, joined by newlines and followed by a newline, then what
  it inserts for the lines after the closing fence line.  So the lines of \<open>body\<close> give no
  format entry and no heading, the two fence lines are not in the text shown, and a fence
  that is not closed raises nothing.
\<close>

theorem fenced_block_in_buffer:
  assumes "split_str 10 text = pre @ fence_line # body @ tail"
    and "even (length (filter is_fence pre))"
    and "is_fence fence_line"
    and "list_all (\<lambda>l. \<not> is_fence l) body"
    and "tail = [] \<or> is_fence (hd tail)"
  shows "\<exists>B A. render_loop pre 0 [] = Some B \<and> render_loop (tl tail) 0 [] = Some A
           \<and> render_markdown_text text =
               Some (B @ (if body = [] then []
                          else [Tagged (join_str newline body @ newline) Code_block]) @ A)"
proof -
  have "text \<noteq> []"
  proof
    assume "text = []"
    with assms(1) have "[[]] = pre @ fence_line # body @ tail" by simp
    then have "fence_line = []"
      by (cases pre) simp_all
    with assms(3) not_fence_empty show False by simp
  qed
  with render_fenced_block [OF assms(2-5)] assms(1) show ?thesis
    by (simp add: render_markdown_text_def)
qed

text \<open>
  The fenced block of the specification's example, between two paragraphs and closed, and
  at the start of a text and not closed: both lines are code text.
\<close>

theorem fenced_block_in_buffer_example:
  "render_markdown_text
     (str ''intro\<newline>```python\<newline>**not bold**\<newline># not a heading\<newline>```\<newline>**after**'') =
   Some [Formatted (str ''intro\<newline>'') [],
         Tagged (str ''**not bold**\<newline># not a heading\<newline>'') Code_block,
         Formatted (str ''after\<newline>'') [\<lparr>fmt_start = 0, fmt_end = 5, fmt_type = Bold\<rparr>]]
   \<and> render_markdown_text (str ''```\<newline>**not bold**\<newline># not a heading'') =
   Some [Tagged (str ''**not bold**\<newline># not a heading\<newline>'') Code_block]"
proof -
  let ?fence_defs = "is_fence_def strip_def strip_chars_def startswith_def is_space_def"
  have before: "render_loop [str ''intro''] 0 [] = Some [Formatted (str ''intro\<newline>'') []]"
    by (simp add: loop_steps line_defs inline_plain [simplified])
  have after: "render_loop (tl [str ''```'', str ''**after**'']) 0 [] =
      Some [Formatted (str ''after\<newline>'')
              [\<lparr>fmt_start = 0, fmt_end = 5, fmt_type = Bold\<rparr>]]"
    by (simp add: loop_steps line_defs inline_plain [simplified])
  have closed: "\<exists>B A. render_loop [str ''intro''] 0 [] = Some B
      \<and> render_loop (tl [str ''```'', str ''**after**'']) 0 [] = Some A
      \<and> render_markdown_text
          (str ''intro\<newline>```python\<newline>**not bold**\<newline># not a heading\<newline>```\<newline>**after**'') =
        Some (B @ (if [str ''**not bold**'', str ''# not a heading''] = [] then []
                   else [Tagged (join_str newline [str ''**not bold**'', str ''# not a heading'']
                           @ newline) Code_block]) @ A)"
    by (rule fenced_block_in_buffer [where fence_line = "str ''```python''"])
      (simp_all add: is_fence_def strip_def strip_chars_def startswith_def is_space_def)
  have unclosed: "\<exists>B A. render_loop [] 0 [] = Some B
      \<and> render_loop (tl []) 0 [] = Some A
      \<and> render_markdown_text (str ''```\<newline>**not bold**\<newline># not a heading'') =
        Some (B @ (if [str ''**not bold**'', str ''# not a heading''] = [] then []
                   else [Tagged (join_str newline [str ''**not bold**'', str ''# not a heading'']
                           @ newline) Code_block]) @ A)"
    by (rule fenced_block_in_buffer [where fence_line = "str ''```''"])
      (simp_all add: is_fence_def strip_def strip_chars_def startswith_def is_space_def)
  from closed before after have a: "render_markdown_text
     (str ''intro\<newline>```python\<newline>**not bold**\<newline># not a heading\<newline>```\<newline>**after**'') =
   Some [Formatted (str ''intro\<newline>'') [],
         Tagged (str ''**not bold**\<newline># not a heading\<newline>'') Code_block,
         Formatted (str ''after\<newline>'') [\<lparr>fmt_start = 0, fmt_end = 5, fmt_type = Bold\<rparr>]]"
    by (auto simp add: newline_def)
  from unclosed have b: "render_markdown_text (str ''```\<newline>**not bold**\<newline># not a heading'') =
   Some [Tagged (str ''**not bold**\<newline># not a heading\<newline>'') Code_block]"
    by (auto simp add: newline_def render_loop_end)
  from a b show ?thesis by simp
qed

section \<open>Headings\<close>

text \<open>
  \<^verbatim>\<open>s.strip(chars)\<close> keeps a first character that is not among \<^verbatim>\<open>chars\<close>; a line that
  starts with \<^verbatim>\<open>#\<close> is therefore no fence line, no quote, no list item and no rule.
\<close>

lemma strip_chars_keeps_head:
  assumes "\<not> p c"
  shows "\<exists>ys. strip_chars p (c # cs) = c # ys"
proof -
  have "\<exists>zs. dropWhile p (rev cs @ [c]) = zs @ [c]"
  proof (cases "\<forall>x \<in> set (rev cs). p x")
    case True
    then have "dropWhile p (rev cs @ [c]) = dropWhile p [c]"
      by (intro dropWhile_append2) simp
    with assms show ?thesis by simp
  next
    case False
    then obtain x where "x \<in> set (rev cs)" "\<not> p x" by blast
    then have "dropWhile p (rev cs @ [c]) = dropWhile p (rev cs) @ [c]"
      by (rule dropWhile_append1)
    then show ?thesis by blast
  qed
  then obtain zs where "dropWhile p (rev cs @ [c]) = zs @ [c]" ..
  with assms show ?thesis by (simp add: strip_chars_def)
qed

lemma not_space_hash: "\<not> is_space 35"
  by (simp add: is_space_def)

lemma not_digit_hash: "\<not> is_digit 35"
  by (simp add: is_digit_def digit_ranges_def)

lemma hash_line_branches:
  assumes "startswith line (str ''#'')"
  shows "\<not> is_fence line" and "startswith (strip line) (str ''#'')" and "\<not> is_quote line"
    and "\<not> is_list_item line" and "\<not> is_rule line" and "1 \<le> hash_count line"
proof -
  from assms obtain cs where line: "line = 35 # cs"
    by (cases line) (simp_all add: startswith_def)
  from strip_chars_keeps_head [of is_space 35 cs, OF not_space_hash]
  obtain ys where s: "strip line = 35 # ys" unfolding strip_def line by blast
  from s show "\<not> is_fence line" by (simp add: is_fence_def startswith_def)
  from s show "startswith (strip line) (str ''#'')" by (simp add: startswith_def)
  from s show "\<not> is_quote line" by (simp add: is_quote_def startswith_def)
  show "\<not> is_list_item line"
    by (simp add: is_list_item_def unordered_match_def ordered_match_def line not_space_hash
        not_digit_hash)
  show "\<not> is_rule line"
    by (simp add: is_rule_def line not_space_hash)
  show "1 \<le> hash_count line"
    by (simp add: hash_count_def line)
qed

text \<open>
  C4, amended.  For every line that starts with \<^verbatim>\<open>#\<close>, with \<^verbatim>\<open>hash_count\<close> the length
  of the run of \<^verbatim>\<open>#\<close> at its start and \<^verbatim>\<open>title_text\<close> the line without the \<^verbatim>\<open>#\<close> at its
  two ends and then without the white space around the rest: when the run has at most
  four characters and the title text is not empty, the round inserts the title text and a
  newline as one heading of the level of the run; otherwise (more than four \<^verbatim>\<open>#\<close>, or no
  title text) it inserts no heading but the line as the paragraph branch shows it, that is
  the text and the format entries the inline formatter returns for the whole line.
\<close>

theorem heading_of_hash_line:
  assumes "i < length lines" and "lines ! i = line" and "startswith line (str ''#'')"
  shows "render_line lines i =
           Some (i + 1,
             [if hash_count line \<le> 4 \<and> title_text line \<noteq> []
              then Tagged (title_text line @ newline) (H (hash_count line))
              else Formatted (fst (process_inline_formatting line) @ newline)
                     (snd (process_inline_formatting line))])
         \<and> 1 \<le> hash_count line"
  using assms(1,2) hash_line_branches [OF assms(3)]
  by (simp add: render_line_def index_def is_heading_def Let_def)

text \<open>
  A heading of level 2 with closing \<^verbatim>\<open>#\<close>, and the line with five \<^verbatim>\<open>#\<close> of the
  specification, which is shown as it is.
\<close>

theorem heading_of_hash_line_example:
  "startswith (str ''## Title ##'') (str ''#'')
   \<and> render_line [str ''## Title ##''] 0 = Some (1, [Tagged (str ''Title\<newline>'') (H 2)])
   \<and> render_line [str ''##### Too Deep''] 0 =
       Some (1, [Formatted (str ''##### Too Deep\<newline>'') []])"
proof -
  have a: "render_line [str ''## Title ##''] 0 = Some (1, [Tagged (str ''Title\<newline>'') (H 2)])"
    using heading_of_hash_line [of 0 "[str ''## Title ##'']" "str ''## Title ##''"]
    by (simp add: startswith_def hash_count_def title_text_def strip_def strip_chars_def
        is_space_def newline_def)
  have b: "render_line [str ''##### Too Deep''] 0 =
       Some (1, [Formatted (str ''##### Too Deep\<newline>'') []])"
    using heading_of_hash_line [of 0 "[str ''##### Too Deep'']" "str ''##### Too Deep''"]
    by (simp add: startswith_def hash_count_def title_text_def strip_def strip_chars_def
        is_space_def newline_def inline_hashes [simplified])
  from a b show ?thesis by (simp add: startswith_def)
qed

section \<open>The renderer returns on every text\<close>











end
